theory Spec2Isabelle
  imports Main "HOL-Library.AList"
begin

section \<open>Python values, objects and the store\<close>

text \<open>
  The module \<open>tqdm/contrib/concurrent.py\<close> is glue around three collaborators: a pool
  executor, a progress-display class and \<open>cpu_count\<close>. Keyword options travel in Python
  dictionaries, which are mutable objects; they live in an explicit store so that what
  the adapter mutates, and what it leaves alone, can be stated.
\<close>

type_synonym addr = nat

datatype tqdm_class = TqdmClass string

datatype pyval =
    PNone
  | PInt int
  | PStr string
  | PClass tqdm_class
  | PSetLock tqdm_class
  | PLock tqdm_class
  | PTuple "pyval list"
  | PRef addr

datatype pyobj = OList "pyval list" | ODict "(string \<times> pyval) list"

type_synonym store = "pyobj list"

datatype exn = TypeError | IndexError | AttributeError | NotImplementedError | UserError string

datatype 'b outcome = Returns "'b list" | Raises exn | Diverges

text \<open>The default progress-display class, \<open>tqdm.auto.tqdm\<close>.\<close>

definition tqdm_auto :: tqdm_class where
  "tqdm_auto = TqdmClass ''tqdm.auto.tqdm''"

subsection \<open>Dictionaries in the store\<close>

text \<open>Binding \<open>**tqdm_kwargs\<close> at a call builds a new dictionary object.\<close>

definition new_dict :: "(string \<times> pyval) list \<Rightarrow> store \<Rightarrow> addr \<times> store" where
  "new_dict items s = (length s, s @ [ODict items])"

definition dict_items :: "store \<Rightarrow> addr \<Rightarrow> (string \<times> pyval) list" where
  "dict_items s a = (if a < length s then (case s ! a of ODict d \<Rightarrow> d | OList _ \<Rightarrow> []) else [])"

definition dict_contains :: "store \<Rightarrow> addr \<Rightarrow> string \<Rightarrow> bool" where
  "dict_contains s a k = (map_of (dict_items s a) k \<noteq> None)"

definition dict_setitem :: "store \<Rightarrow> addr \<Rightarrow> string \<Rightarrow> pyval \<Rightarrow> store" where
  "dict_setitem s a k v = s[a := ODict (AList.update k v (dict_items s a))]"

text \<open>\<open>d.pop(k, default)\<close>: the default has already been evaluated by the caller.\<close>

definition dict_pop :: "store \<Rightarrow> addr \<Rightarrow> string \<Rightarrow> pyval \<Rightarrow> pyval \<times> store" where
  "dict_pop s a k dflt =
     (case map_of (dict_items s a) k of
        None \<Rightarrow> (dflt, s)
      | Some v \<Rightarrow> (v, s[a := ODict (AList.delete k (dict_items s a))]))"

subsection \<open>\<open>copy.deepcopy\<close>\<close>

text \<open>
  \<open>deepcopy\<close> returns an object graph of the same shape whose mutable containers are all
  new objects; atoms (\<open>None\<close>, numbers, strings, classes, locks) are shared. The model
  copies every object of the store to a new address (the old address plus the size of
  the store) and redirects the references inside the copies, so sharing and cycles
  within the copy are those of the original.
\<close>

fun relocate :: "nat \<Rightarrow> pyval \<Rightarrow> pyval" where
  "relocate k (PRef a) = PRef (a + k)"
| "relocate k (PTuple vs) = PTuple (map (relocate k) vs)"
| "relocate k PNone = PNone"
| "relocate k (PInt i) = PInt i"
| "relocate k (PStr x) = PStr x"
| "relocate k (PClass c) = PClass c"
| "relocate k (PSetLock c) = PSetLock c"
| "relocate k (PLock c) = PLock c"

fun relocate_obj :: "nat \<Rightarrow> pyobj \<Rightarrow> pyobj" where
  "relocate_obj k (OList vs) = OList (map (relocate k) vs)"
| "relocate_obj k (ODict d) = ODict (map (\<lambda>(key, v). (key, relocate k v)) d)"

definition deepcopy :: "pyval \<Rightarrow> store \<Rightarrow> pyval \<times> store" where
  "deepcopy v s = (relocate (length s) v, s @ map (relocate_obj (length s)) s)"

section \<open>The environment of the module\<close>

text \<open>
  Lines 7 to 14 pick \<open>cpu_count\<close>: \<open>os.cpu_count\<close> (which returns a number or \<open>None\<close>),
  else \<open>multiprocessing.cpu_count\<close> (which returns a number or raises
  \<open>NotImplementedError\<close>), else the local fallback that returns 4.
\<close>

datatype cpu_count_impl =
    os_cpu_count "int option"
  | multiprocessing_cpu_count "int option"
  | fallback_cpu_count

record env =
  cpu_impl :: cpu_count_impl
  operator_length_hint :: bool
  version_info :: "nat \<times> nat"

fun cpu_count :: "cpu_count_impl \<Rightarrow> exn + int option" where
  "cpu_count (os_cpu_count r) = Inr r"
| "cpu_count (multiprocessing_cpu_count None) = Inl NotImplementedError"
| "cpu_count (multiprocessing_cpu_count (Some n)) = Inr (Some n)"
| "cpu_count fallback_cpu_count = Inr (Some 4)"

section \<open>Input sequences\<close>

text \<open>
  An input is a sequence with a length, an iterator without one (it carries the
  value of its \<open>__length_hint__\<close>, 0 for a generator), or a lazily unbounded iterator.
\<close>

datatype 'a iterable =
    Sized "'a list"
  | Iterator nat "'a list"
  | Unbounded "nat \<Rightarrow> 'a"

fun len :: "'a iterable \<Rightarrow> exn + nat" where
  "len (Sized xs) = Inr (length xs)"
| "len (Iterator h xs) = Inl TypeError"
| "len (Unbounded f) = Inl TypeError"

text \<open>
  \<open>operator.length_hint\<close>, and the fallback of lines 18 to 22 (\<open>len\<close>, or the default 0
  on \<open>TypeError\<close>) where the import fails.
\<close>

fun length_hint :: "env \<Rightarrow> 'a iterable \<Rightarrow> nat" where
  "length_hint e (Sized xs) = length xs"
| "length_hint e (Iterator h xs) = (if operator_length_hint e then h else 0)"
| "length_hint e (Unbounded f) = 0"

fun finite_length :: "'a iterable \<Rightarrow> nat option" where
  "finite_length (Sized xs) = Some (length xs)"
| "finite_length (Iterator h xs) = Some (length xs)"
| "finite_length (Unbounded f) = None"

fun item :: "'a iterable \<Rightarrow> nat \<Rightarrow> 'a" where
  "item (Sized xs) i = xs ! i"
| "item (Iterator h xs) i = xs ! i"
| "item (Unbounded f) i = f i"

text \<open>
  \<open>zip(*iterables)\<close>, collected: it stops at the shortest input, is empty for no input
  at all, and has no end (\<open>None\<close>) when every input is unbounded.
\<close>

definition zip_star :: "'a iterable list \<Rightarrow> 'a list list option" where
  "zip_star its =
     (if its = [] then Some []
      else (case List.map_filter finite_length its of
              [] \<Rightarrow> None
            | n # ns \<Rightarrow> Some (map (\<lambda>i. map (\<lambda>it. item it i) its) [0..<fold min ns n])))"

section \<open>The pool executor and the progress display\<close>

datatype pool_kind = ThreadPoolExecutor | ProcessPoolExecutor

datatype event =
    Warn nat
  | CpuCount
  | GetLock tqdm_class
  | PoolInit pool_kind "(string \<times> pyval) list"
  | PoolMap pyval
  | TqdmInit tqdm_class "(string \<times> pyval) list"
  | PoolShutdown

text \<open>
  \<open>Executor.map(fn, *iterables, chunksize)\<close> collects its iterables immediately, and
  yields the results of \<open>fn\<close> in the order of the inputs, whatever the number of workers
  and the chunk size. A result is a value, or the exception \<open>fn\<close> raised, which is
  re-raised when that result is consumed.
\<close>

definition pool_map :: "('a list \<Rightarrow> exn + 'b) \<Rightarrow> 'a iterable list \<Rightarrow> (exn + 'b) list option" where
  "pool_map fn its = map_option (map fn) (zip_star its)"

text \<open>
  Modelled from the spec: the progress-display class (\<open>tqdm.auto.tqdm\<close> and its
  subclasses) is not among the sources. The spec has it wrap any iterable and render
  completion status as the iterable is consumed: what it yields is what it wraps, and
  neither \<open>total\<close> nor any other display option changes that.
\<close>

definition tqdm_iter :: "tqdm_class \<Rightarrow> 'r list \<Rightarrow> (string \<times> pyval) list \<Rightarrow> 'r list" where
  "tqdm_iter c results display_kwargs = results"

text \<open>\<open>list(...)\<close> consumes the results in order and stops at the first exception.\<close>

fun materialize :: "(exn + 'b) list \<Rightarrow> 'b outcome" where
  "materialize [] = Returns []"
| "materialize (Inl x # rs) = Raises x"
| "materialize (Inr y # rs) =
     (case materialize rs of Returns ys \<Rightarrow> Returns (y # ys) | Raises x \<Rightarrow> Raises x | Diverges \<Rightarrow> Diverges)"

section \<open>\<open>_executor_map\<close>\<close>

text \<open>Lines 33 and 34: \<open>if "total" not in kwargs: kwargs["total"] = len(iterables[0])\<close>.\<close>

definition resolve_total :: "'a iterable list \<Rightarrow> addr \<Rightarrow> store \<Rightarrow> exn + store" where
  "resolve_total iterables kwargs s =
     (if \<not> dict_contains s kwargs ''total'' then
        (case iterables of
           [] \<Rightarrow> Inl IndexError
         | it # _ \<Rightarrow> (case len it of Inl x \<Rightarrow> Inl x | Inr n \<Rightarrow> Inr (dict_setitem s kwargs ''total'' (PInt (int n)))))
      else Inr s)"

text \<open>The default argument of line 36, \<open>min(32, cpu_count() + 4)\<close>.\<close>

definition default_max_workers :: "env \<Rightarrow> exn + pyval" where
  "default_max_workers e =
     (case cpu_count (cpu_impl e) of
        Inl x \<Rightarrow> Inl x
      | Inr None \<Rightarrow> Inl TypeError
      | Inr (Some n) \<Rightarrow> Inr (PInt (min 32 (n + 4))))"

text \<open>\<open>sys.version_info[:2] >= (3, 7)\<close>, a comparison of pairs.\<close>

definition version_ge_3_7 :: "env \<Rightarrow> bool" where
  "version_ge_3_7 e = (case version_info e of (major, minor) \<Rightarrow> 3 < major \<or> (major = 3 \<and> 7 \<le> minor))"

text \<open>Lines 39 to 42: the lock of the display class goes to the initializer of the workers.\<close>

definition share_lock ::
  "env \<Rightarrow> pyval \<Rightarrow> (string \<times> pyval) list \<Rightarrow> exn + ((string \<times> pyval) list \<times> event list)" where
  "share_lock e tqdm_cls pool_kwargs =
     (if version_ge_3_7 e then
        (case tqdm_cls of
           PClass c \<Rightarrow>
             Inr (AList.update ''initargs'' (PTuple [PLock c])
                    (AList.update ''initializer'' (PSetLock c) pool_kwargs), [GetLock c])
         | _ \<Rightarrow> Inl AttributeError)
      else Inr (pool_kwargs, []))"

text \<open>Lines 43 and 44: the pool is a context manager around the map and the list.\<close>

definition run_pool ::
  "pool_kind \<Rightarrow> (string \<times> pyval) list \<Rightarrow> ('a list \<Rightarrow> exn + 'b) \<Rightarrow> 'a iterable list \<Rightarrow> pyval \<Rightarrow>
   pyval \<Rightarrow> (string \<times> pyval) list \<Rightarrow> 'b outcome \<times> event list" where
  "run_pool PoolExecutor pool_kwargs fn iterables chunksize tqdm_cls display_kwargs =
     (case pool_map fn iterables of
        None \<Rightarrow> (Diverges, [PoolInit PoolExecutor pool_kwargs, PoolMap chunksize])
      | Some results \<Rightarrow>
          (case tqdm_cls of
             PClass c \<Rightarrow>
               (materialize (tqdm_iter c results display_kwargs),
                [PoolInit PoolExecutor pool_kwargs, PoolMap chunksize, TqdmInit c display_kwargs,
                 PoolShutdown])
           | _ \<Rightarrow>
               (Raises TypeError,
                [PoolInit PoolExecutor pool_kwargs, PoolMap chunksize, PoolShutdown])))"

definition executor_map ::
  "env \<Rightarrow> pool_kind \<Rightarrow> ('a list \<Rightarrow> exn + 'b) \<Rightarrow> 'a iterable list \<Rightarrow> (string \<times> pyval) list \<Rightarrow>
   store \<Rightarrow> 'b outcome \<times> event list \<times> store" where
  "executor_map e PoolExecutor fn iterables kw s0 =
     (let (tqdm_kwargs, s1) = new_dict kw s0;
          (kwargs_ref, s2) = deepcopy (PRef tqdm_kwargs) s1;
          kwargs = (case kwargs_ref of PRef a \<Rightarrow> a | _ \<Rightarrow> 0)
      in case resolve_total iterables kwargs s2 of
           Inl x \<Rightarrow> (Raises x, [], s2)
         | Inr s3 \<Rightarrow>
             (let (tqdm_cls, s4) = dict_pop s3 kwargs ''tqdm_class'' (PClass tqdm_auto)
              in case default_max_workers e of
                   Inl x \<Rightarrow> (Raises x, [CpuCount], s4)
                 | Inr dflt \<Rightarrow>
                     (let (max_workers, s5) = dict_pop s4 kwargs ''max_workers'' dflt;
                          (chunksize, s6) = dict_pop s5 kwargs ''chunksize'' (PInt 1);
                          pool_kwargs = [(''max_workers'', max_workers)]
                      in case share_lock e tqdm_cls pool_kwargs of
                           Inl x \<Rightarrow> (Raises x, [CpuCount], s6)
                         | Inr (pool_kwargs', evs) \<Rightarrow>
                             (let (out, evs') =
                                    run_pool PoolExecutor pool_kwargs' fn iterables chunksize
                                      tqdm_cls (dict_items s6 kwargs)
                              in (out, CpuCount # evs @ evs', s6)))))"

section \<open>The entry points\<close>

definition thread_map ::
  "env \<Rightarrow> ('a list \<Rightarrow> exn + 'b) \<Rightarrow> 'a iterable list \<Rightarrow> (string \<times> pyval) list \<Rightarrow> store \<Rightarrow>
   'b outcome \<times> event list \<times> store" where
  "thread_map e fn iterables kw s0 =
     (let (tqdm_kwargs, s1) = new_dict kw s0
      in executor_map e ThreadPoolExecutor fn iterables (dict_items s1 tqdm_kwargs) s1)"

text \<open>\<open>max(map(length_hint, iterables))\<close> of line 86, on a list that is not empty.\<close>

definition longest_iterable_len :: "env \<Rightarrow> 'a iterable list \<Rightarrow> nat" where
  "longest_iterable_len e iterables = fold max (map (length_hint e) iterables) 0"

definition chunksize_warning :: "env \<Rightarrow> 'a iterable list \<Rightarrow> store \<Rightarrow> addr \<Rightarrow> event list" where
  "chunksize_warning e iterables s tqdm_kwargs =
     (if iterables \<noteq> [] \<and> \<not> dict_contains s tqdm_kwargs ''chunksize'' then
        (if 1000 \<le> longest_iterable_len e iterables
         then [Warn (longest_iterable_len e iterables)] else [])
      else [])"

definition process_map ::
  "env \<Rightarrow> ('a list \<Rightarrow> exn + 'b) \<Rightarrow> 'a iterable list \<Rightarrow> (string \<times> pyval) list \<Rightarrow> store \<Rightarrow>
   'b outcome \<times> event list \<times> store" where
  "process_map e fn iterables kw s0 =
     (let (tqdm_kwargs, s1) = new_dict kw s0;
          warnings = chunksize_warning e iterables s1 tqdm_kwargs;
          (out, evs, s2) =
            executor_map e ProcessPoolExecutor fn iterables (dict_items s1 tqdm_kwargs) s1
      in (out, warnings @ evs, s2))"

section \<open>The adapter over the dictionary alone\<close>

text \<open>
  What \<open>_executor_map\<close> returns and the events it causes depend on the store only through
  the items of the working dictionary. The definitions below restate lines 33 to 44 over
  those items; \<open>executor_map_run\<close> proves that they agree with \<open>executor_map\<close>.
\<close>

definition copied :: "nat \<Rightarrow> (string \<times> pyval) list \<Rightarrow> (string \<times> pyval) list" where
  "copied n kw = map (\<lambda>(key, v). (key, relocate n v)) kw"

definition lookup_default :: "(string \<times> pyval) list \<Rightarrow> string \<Rightarrow> pyval \<Rightarrow> pyval" where
  "lookup_default d k dflt = (case map_of d k of None \<Rightarrow> dflt | Some v \<Rightarrow> v)"

definition with_total ::
  "'a iterable list \<Rightarrow> (string \<times> pyval) list \<Rightarrow> exn + (string \<times> pyval) list" where
  "with_total iterables d =
     (if map_of d ''total'' = None then
        (case iterables of
           [] \<Rightarrow> Inl IndexError
         | it # _ \<Rightarrow>
             (case len it of Inl x \<Rightarrow> Inl x | Inr n \<Rightarrow> Inr (AList.update ''total'' (PInt (int n)) d)))
      else Inr d)"

definition display_kwargs :: "(string \<times> pyval) list \<Rightarrow> (string \<times> pyval) list" where
  "display_kwargs d =
     AList.delete ''chunksize'' (AList.delete ''max_workers'' (AList.delete ''tqdm_class'' d))"

definition run ::
  "env \<Rightarrow> pool_kind \<Rightarrow> ('a list \<Rightarrow> exn + 'b) \<Rightarrow> 'a iterable list \<Rightarrow> (string \<times> pyval) list \<Rightarrow>
   'b outcome \<times> event list" where
  "run e P fn iterables d0 =
     (case with_total iterables d0 of
        Inl x \<Rightarrow> (Raises x, [])
      | Inr d \<Rightarrow>
         (case default_max_workers e of
            Inl x \<Rightarrow> (Raises x, [CpuCount])
          | Inr dflt \<Rightarrow>
             (case share_lock e (lookup_default d ''tqdm_class'' (PClass tqdm_auto))
                     [(''max_workers'', lookup_default d ''max_workers'' dflt)] of
                Inl x \<Rightarrow> (Raises x, [CpuCount])
              | Inr (pk, evs) \<Rightarrow>
                 (let (out, evs') =
                        run_pool P pk fn iterables (lookup_default d ''chunksize'' (PInt 1))
                          (lookup_default d ''tqdm_class'' (PClass tqdm_auto)) (display_kwargs d)
                  in (out, CpuCount # evs @ evs')))))"

text \<open>The three components of what a call yields.\<close>

definition outcome_of :: "'b outcome \<times> event list \<times> store \<Rightarrow> 'b outcome" where
  "outcome_of r = fst r"

definition events_of :: "'b outcome \<times> event list \<times> store \<Rightarrow> event list" where
  "events_of r = fst (snd r)"

definition store_of :: "'b outcome \<times> event list \<times> store \<Rightarrow> store" where
  "store_of r = snd (snd r)"

text \<open>The error of lines 33 and 34, when there is one.\<close>

definition total_error :: "'a iterable list \<Rightarrow> (string \<times> pyval) list \<Rightarrow> exn option" where
  "total_error iterables d =
     (if map_of d ''total'' = None then
        (case iterables of
           [] \<Rightarrow> Some IndexError
         | it # _ \<Rightarrow> (case len it of Inl x \<Rightarrow> Some x | Inr n \<Rightarrow> None))
      else None)"

definition is_class :: "pyval \<Rightarrow> bool" where
  "is_class v = (case v of PClass c \<Rightarrow> True | _ \<Rightarrow> False)"

text \<open>What a call yields to its caller, read off the keyword arguments.\<close>

definition final_outcome ::
  "env \<Rightarrow> ('a list \<Rightarrow> exn + 'b) \<Rightarrow> 'a iterable list \<Rightarrow> (string \<times> pyval) list \<Rightarrow> 'b outcome" where
  "final_outcome e fn its kw =
     (case total_error its kw of
        Some x \<Rightarrow> Raises x
      | None \<Rightarrow>
         (case default_max_workers e of
            Inl x \<Rightarrow> Raises x
          | Inr dflt \<Rightarrow>
             (if is_class (lookup_default kw ''tqdm_class'' (PClass tqdm_auto)) then
                (case pool_map fn its of None \<Rightarrow> Diverges | Some rs \<Rightarrow> materialize rs)
              else if version_ge_3_7 e then Raises AttributeError
              else (case pool_map fn its of None \<Rightarrow> Diverges | Some rs \<Rightarrow> Raises TypeError))))"

section \<open>The sequential equivalent\<close>


section \<open>Concrete inputs\<close>

definition py38 :: env where
  "py38 = \<lparr>cpu_impl = os_cpu_count (Some 8), operator_length_hint = True, version_info = (3, 8)\<rparr>"

definition add_all :: "int list \<Rightarrow> exn + int" where
  "add_all xs = Inr (sum_list xs)"



definition py27_fallback :: env where
  "py27_fallback = \<lparr>cpu_impl = fallback_cpu_count, operator_length_hint = False, version_info = (2, 7)\<rparr>"

definition thousand :: "int iterable" where
  "thousand = Sized (replicate 1000 1)"

definition caller_list :: store where
  "caller_list = [OList [PInt 1]]"

section \<open>Conditions on a call\<close>


text \<open>
  The call gets as far as the pool: moreover \<open>total\<close> is given or the first input sequence
  has a length.
\<close>

definition reaches_pool :: "env \<Rightarrow> 'a iterable list \<Rightarrow> (string \<times> pyval) list \<Rightarrow> bool" where
  "reaches_pool e its kw =
     (total_error its kw = None
      \<and> (case default_max_workers e of Inl x \<Rightarrow> False | Inr dflt \<Rightarrow> True)
      \<and> is_class (lookup_default kw ''tqdm_class'' (PClass tqdm_auto)))"

text \<open>The length of the shortest input sequence, among those that end.\<close>

definition shortest_length :: "'a iterable list \<Rightarrow> nat option" where
  "shortest_length its =
     (if List.map_filter finite_length its = [] then None
      else Some (Min (set (List.map_filter finite_length its))))"

section \<open>Events\<close>

fun is_warning :: "event \<Rightarrow> bool" where
  "is_warning (Warn n) = True"
| "is_warning ev = False"

fun is_display_event :: "event \<Rightarrow> bool" where
  "is_display_event (TqdmInit c dk) = True"
| "is_display_event ev = False"

text \<open>
  An exception propagated from the progress-display component: the call raises, and the
  display had been constructed by then.
\<close>

definition propagated_from_display :: "'b outcome \<times> event list \<times> store \<Rightarrow> bool" where
  "propagated_from_display r =
     (case outcome_of r of
        Raises x \<Rightarrow> list_ex is_display_event (events_of r)
      | _ \<Rightarrow> False)"

section \<open>References between objects\<close>

fun val_refs :: "pyval \<Rightarrow> addr list" where
  "val_refs (PRef a) = [a]"
| "val_refs (PTuple vs) = concat (map val_refs vs)"
| "val_refs v = []"

fun obj_refs :: "pyobj \<Rightarrow> addr list" where
  "obj_refs (OList vs) = concat (map val_refs vs)"
| "obj_refs (ODict d) = concat (map (\<lambda>(key, v). val_refs v) d)"

text \<open>
  From address \<open>n\<close> on, the objects of a store refer to nothing below \<open>n\<close>; and a later
  store that keeps the size, the objects below \<open>n\<close> and that separation.
\<close>

definition separate :: "nat \<Rightarrow> store \<Rightarrow> bool" where
  "separate n s = (\<forall>a. n \<le> a \<and> a < length s \<longrightarrow> (\<forall>r\<in>set (obj_refs (s ! a)). n \<le> r))"

definition kept :: "nat \<Rightarrow> store \<Rightarrow> store \<Rightarrow> bool" where
  "kept n s s' = (length s' = length s \<and> take n s' = take n s \<and> separate n s')"

section \<open>Facts about the store and the working dictionary\<close>

lemma map_of_copied: "map_of (copied n kw) k = map_option (relocate n) (map_of kw k)"
  by (induction kw) (auto simp: copied_def)

lemma dict_items_update: "a < length s \<Longrightarrow> dict_items (s[a := ODict d]) a = d"
  by (simp add: dict_items_def)

lemma delete_absent: "map_of d k = None \<Longrightarrow> AList.delete k d = d"
  by (metis AList.delete_id domIff dom_map_of_conv_image_fst)

lemma dict_pop_fst: "fst (dict_pop s a k dflt) = lookup_default (dict_items s a) k dflt"
  by (simp add: dict_pop_def lookup_default_def split: option.splits)

lemma dict_pop_items:
  "a < length s \<Longrightarrow> dict_items (snd (dict_pop s a k dflt)) a = AList.delete k (dict_items s a)"
  by (auto simp: dict_pop_def dict_items_update delete_absent split: option.splits)

lemma dict_pop_length: "length (snd (dict_pop s a k dflt)) = length s"
  by (simp add: dict_pop_def split: option.splits)

lemma resolve_total_Inl:
  "resolve_total iterables a s = Inl x \<longleftrightarrow> with_total iterables (dict_items s a) = Inl x"
  by (auto simp: resolve_total_def with_total_def dict_contains_def split: list.splits sum.splits)

lemma resolve_total_Inr:
  assumes "resolve_total iterables a s = Inr s'" and "a < length s"
  shows "with_total iterables (dict_items s a) = Inr (dict_items s' a) \<and> length s' = length s"
  using assms
  by (auto simp: resolve_total_def with_total_def dict_contains_def dict_setitem_def
        dict_items_update split: list.splits sum.splits if_splits)

lemma lookup_default_delete:
  "k \<noteq> k' \<Longrightarrow> lookup_default (AList.delete k' d) k dflt = lookup_default d k dflt"
  by (simp add: lookup_default_def)

lemma working_copy:
  "dict_items ((s0 @ [ODict kw]) @ map (relocate_obj (Suc (length s0))) (s0 @ [ODict kw]))
     (length s0 + Suc (length s0)) = copied (Suc (length s0)) kw"
  by (simp add: dict_items_def nth_append copied_def)

lemma executor_map_run:
  "(fst (executor_map e P fn iterables kw s0), fst (snd (executor_map e P fn iterables kw s0)))
     = run e P fn iterables (copied (Suc (length s0)) kw)"
proof -
  let ?n = "Suc (length s0)"
  let ?a = "length s0 + ?n"
  let ?s1 = "s0 @ [ODict kw]"
  let ?s2 = "?s1 @ map (relocate_obj ?n) ?s1"
  have a: "?a < length ?s2" by simp
  have d0: "dict_items ?s2 ?a = copied ?n kw" by (rule working_copy)
  show ?thesis
  proof (cases "resolve_total iterables ?a ?s2")
    case (Inl x)
    then have "with_total iterables (copied ?n kw) = Inl x"
      using resolve_total_Inl d0 by metis
    with Inl show ?thesis
      by (simp add: executor_map_def new_dict_def deepcopy_def run_def)
  next
    case (Inr s3)
    from resolve_total_Inr [OF Inr a] d0
    have wt: "with_total iterables (copied ?n kw) = Inr (dict_items s3 ?a)"
      and l3: "?a < length s3"
      by simp_all
    show ?thesis
      using Inr wt l3
      by (simp add: executor_map_def new_dict_def deepcopy_def run_def Let_def split_beta
            dict_pop_fst dict_pop_items dict_pop_length lookup_default_delete display_kwargs_def
            split: sum.splits)
  qed
qed

lemma thread_map_run:
  "outcome_of (thread_map e fn its kw s0) =
     fst (run e ThreadPoolExecutor fn its (copied (length s0 + 2) kw))"
  "events_of (thread_map e fn its kw s0) =
     snd (run e ThreadPoolExecutor fn its (copied (length s0 + 2) kw))"
  using executor_map_run [of e ThreadPoolExecutor fn its kw "s0 @ [ODict kw]"]
  by (simp_all add: thread_map_def new_dict_def dict_items_def outcome_of_def events_of_def
        nth_append prod_eq_iff)

lemma process_map_run:
  "outcome_of (process_map e fn its kw s0) =
     fst (run e ProcessPoolExecutor fn its (copied (length s0 + 2) kw))"
  "events_of (process_map e fn its kw s0) =
     chunksize_warning e its (s0 @ [ODict kw]) (length s0)
       @ snd (run e ProcessPoolExecutor fn its (copied (length s0 + 2) kw))"
  using executor_map_run [of e ProcessPoolExecutor fn its kw "s0 @ [ODict kw]"]
  by (simp_all add: process_map_def new_dict_def dict_items_def outcome_of_def events_of_def
        nth_append prod_eq_iff split_beta)

lemma relocate_class [simp]: "relocate n v = PClass c \<longleftrightarrow> v = PClass c"
  by (cases v) auto

lemma lookup_default_copied:
  "lookup_default (copied n kw) k (PClass c) = relocate n (lookup_default kw k (PClass c))"
  by (simp add: lookup_default_def map_of_copied split: option.splits)

lemma lookup_default_update:
  "k \<noteq> k' \<Longrightarrow> lookup_default (AList.update k' v d) k dflt = lookup_default d k dflt"
  by (simp add: lookup_default_def update_conv')

lemma with_total_lookup:
  "with_total its d = Inr d' \<Longrightarrow> k \<noteq> ''total'' \<Longrightarrow>
   lookup_default d' k dflt = lookup_default d k dflt"
  by (auto simp: with_total_def lookup_default_update split: if_splits list.splits sum.splits)

lemma with_total_error:
  "with_total its d = Inl x \<longleftrightarrow> total_error its d = Some x"
  "(\<exists>d'. with_total its d = Inr d') \<longleftrightarrow> total_error its d = None"
  by (auto simp: with_total_def total_error_def split: list.splits sum.splits)

lemma is_class_relocate [simp]: "is_class (relocate n v) = is_class v"
  by (cases v) (auto simp: is_class_def)

lemma total_error_copied: "total_error its (copied n kw) = total_error its kw"
  by (simp add: total_error_def map_of_copied)

lemma run_outcome: "fst (run e P fn its d) = final_outcome e fn its d"
proof (cases "with_total its d")
  case (Inl x)
  then show ?thesis
    using with_total_error(1) [of its d x] by (simp add: run_def final_outcome_def)
next
  case (Inr d')
  then have te: "total_error its d = None"
    using with_total_error(2) [of its d] by blast
  have tc: "lookup_default d' ''tqdm_class'' (PClass tqdm_auto)
              = lookup_default d ''tqdm_class'' (PClass tqdm_auto)"
    using with_total_lookup [OF Inr] by simp
  show ?thesis
  proof (cases "default_max_workers e")
    case (Inl x)
    with Inr te show ?thesis by (simp add: run_def final_outcome_def)
  next
    case (Inr dflt)
    with \<open>with_total its d = Inr d'\<close> te tc show ?thesis
      by (cases "lookup_default d ''tqdm_class'' (PClass tqdm_auto)")
         (auto simp add: run_def final_outcome_def share_lock_def run_pool_def is_class_def
            tqdm_iter_def split: option.splits)
  qed
qed

lemma final_outcome_copied: "final_outcome e fn its (copied n kw) = final_outcome e fn its kw"
  by (simp add: final_outcome_def total_error_copied lookup_default_copied)

lemma adapter_outcome:
  "outcome_of (thread_map e fn its kw s) = final_outcome e fn its kw"
  "outcome_of (process_map e fn its kw s) = final_outcome e fn its kw"
  by (simp_all add: thread_map_run process_map_run run_outcome final_outcome_copied)

section \<open>The claims\<close>



lemma materialize_Returns: "materialize rs = Returns ys \<longleftrightarrow> rs = map Inr ys"
proof (induction rs arbitrary: ys)
  case Nil
  then show ?case by auto
next
  case (Cons r rs)
  show ?case
  proof (cases r)
    case (Inl x)
    then show ?thesis by (cases ys) auto
  next
    case (Inr y)
    with Cons show ?thesis
      by (cases ys; cases "materialize rs") auto
  qed
qed

lemma materialize_not_Diverges: "materialize rs \<noteq> Diverges"
proof (induction rs)
  case Nil
  then show ?case by simp
next
  case (Cons r rs)
  then show ?case by (cases r; cases "materialize rs") auto
qed




lemma reaches_pool_outcome:
  "reaches_pool e its kw \<Longrightarrow>
   final_outcome e fn its kw = (case pool_map fn its of None \<Rightarrow> Diverges | Some rs \<Rightarrow> materialize rs)"
  by (auto simp: reaches_pool_def final_outcome_def split: sum.splits)


lemma fold_min_Min: "fold min ns (n::nat) = Min (set (n # ns))"
  using Min.set_eq_fold [of n ns] by simp

lemma zip_star_length:
  "zip_star its = Some args \<Longrightarrow> its \<noteq> [] \<Longrightarrow> shortest_length its = Some (length args)"
  by (auto simp: zip_star_def shortest_length_def fold_min_Min simp del: Min.set_eq_fold split: list.splits)

lemma zip_star_None: "zip_star its = None \<longleftrightarrow> its \<noteq> [] \<and> shortest_length its = None"
  by (auto simp: zip_star_def shortest_length_def split: list.splits)

lemma final_outcome_Returns:
  assumes "final_outcome e fn its kw = Returns ys"
  shows "\<exists>args. zip_star its = Some args \<and> map fn args = map Inr ys"
  using assms
  by (auto simp: final_outcome_def pool_map_def materialize_Returns
        split: option.splits sum.splits if_splits)





text \<open>
  C5, as stated, fails: with a lazily unbounded input and an explicit \<open>total\<close> of 2 the
  call never returns, so it returns no list of length 2.
\<close>

theorem total_does_not_bound_unbounded_input:
  "outcome_of (thread_map py38 add_all [Unbounded int] [(''total'', PInt 2)] []) = Diverges"
  by code_simp


text \<open>
  C5, amended. With at least one input sequence, a list returned by either entry point
  has the length of the shortest input sequence among those that end, whatever \<open>total\<close>,
  \<open>max_workers\<close> and \<open>chunksize\<close> are. A call that gets as far as the pool and whose \<open>fn\<close>
  never raises returns such a list when some input sequence ends; when every input
  sequence is lazily unbounded it never returns, whatever \<open>total\<close> is.
\<close>

theorem result_length_is_shortest_input:
  assumes "its \<noteq> []"
  shows "(\<forall>ys. outcome_of (thread_map e fn its kw s) = Returns ys
               \<or> outcome_of (process_map e fn its kw s) = Returns ys
             \<longrightarrow> shortest_length its = Some (length ys))
       \<and> (reaches_pool e its kw \<and> (\<forall>args. \<exists>y. fn args = Inr y) \<and> shortest_length its \<noteq> None
             \<longrightarrow> (\<exists>ys. outcome_of (thread_map e fn its kw s) = Returns ys
                     \<and> outcome_of (process_map e fn its kw s) = Returns ys))
       \<and> (reaches_pool e its kw \<and> shortest_length its = None
             \<longrightarrow> outcome_of (thread_map e fn its kw s) = Diverges
               \<and> outcome_of (process_map e fn its kw s) = Diverges)"
proof -
  have a: "shortest_length its = Some (length ys)" if "final_outcome e fn its kw = Returns ys" for ys
  proof -
    from final_outcome_Returns [OF that]
    obtain args where z: "zip_star its = Some args" and m: "map fn args = map Inr ys" by blast
    from m have "length args = length ys" by (metis length_map)
    with zip_star_length [OF z assms] show ?thesis by simp
  qed
  have b: "\<exists>ys. final_outcome e fn its kw = Returns ys"
    if r: "reaches_pool e its kw" and t: "\<forall>args. \<exists>y. fn args = Inr y" and f: "shortest_length its \<noteq> None"
  proof -
    from f obtain args where z: "zip_star its = Some args"
      using zip_star_None [of its] by (cases "zip_star its") auto
    from t obtain g where g: "\<And>args. fn args = Inr (g args)" by metis
    then have "map fn args = map Inr (map g args)" by simp
    then have "materialize (map fn args) = Returns (map g args)"
      by (simp only: materialize_Returns)
    then show ?thesis
      using reaches_pool_outcome [OF r, of fn] z by (simp add: pool_map_def)
  qed
  have c: "final_outcome e fn its kw = Diverges"
    if r: "reaches_pool e its kw" and f: "shortest_length its = None"
    using reaches_pool_outcome [OF r, of fn] zip_star_None [of its] f assms
    by (simp add: pool_map_def)
  show ?thesis using a b c by (simp add: adapter_outcome)
qed

theorem result_length_is_shortest_input_witness:
  "outcome_of (thread_map py38 add_all [Sized [1, 2, 3], Iterator 0 [10, 20], Unbounded int]
       [(''total'', PInt 7)] []) = Returns [11, 23]
   \<and> shortest_length [Sized [1, 2, 3], Iterator 0 [10, 20], Unbounded int] = Some 2"
proof -
  have h: "[Sized [1, 2, 3], Iterator 0 [10, 20], Unbounded int] \<noteq> []" by simp
  have v: "outcome_of (thread_map py38 add_all [Sized [1, 2, 3], Iterator 0 [10, 20], Unbounded int]
       [(''total'', PInt 7)] []) = Returns [11, 23]"
    by code_simp
  from result_length_is_shortest_input [OF h, of py38 add_all "[(''total'', PInt 7)]" "[]"] v
  show ?thesis by auto
qed


lemma run_PoolInit:
  assumes "PoolInit P' pk \<in> set (snd (run e P fn its d))"
  shows "P' = P \<and> total_error its d = None
       \<and> (\<exists>dflt. default_max_workers e = Inr dflt
              \<and> map_of pk ''max_workers'' = Some (lookup_default d ''max_workers'' dflt))
       \<and> (if version_ge_3_7 e
          then (\<exists>c. lookup_default d ''tqdm_class'' (PClass tqdm_auto) = PClass c
                  \<and> map_of pk ''initializer'' = Some (PSetLock c)
                  \<and> map_of pk ''initargs'' = Some (PTuple [PLock c])
                  \<and> GetLock c \<in> set (snd (run e P fn its d)))
          else map_of pk ''initializer'' = None \<and> map_of pk ''initargs'' = None)"
proof (cases "with_total its d")
  case (Inl x)
  with assms show ?thesis by (simp add: run_def)
next
  case (Inr d')
  then have te: "total_error its d = None"
    using with_total_error(2) [of its d] by blast
  have lk: "lookup_default d' ''tqdm_class'' (PClass tqdm_auto) = lookup_default d ''tqdm_class'' (PClass tqdm_auto)"
    "\<And>dflt. lookup_default d' ''max_workers'' dflt = lookup_default d ''max_workers'' dflt"
    using with_total_lookup [OF Inr] by simp_all
  show ?thesis
  proof (cases "default_max_workers e")
    case (Inl x)
    with Inr assms show ?thesis by (simp add: run_def)
  next
    case dm: (Inr dflt)
    show ?thesis
      using assms Inr dm te lk
      by (cases "lookup_default d ''tqdm_class'' (PClass tqdm_auto)")
         (auto simp: run_def share_lock_def run_pool_def split: option.splits if_splits)
  qed
qed

lemma run_reaches:
  assumes "reaches_pool e its d"
  shows "CpuCount \<in> set (snd (run e P fn its d)) \<and> (\<exists>pk. PoolInit P pk \<in> set (snd (run e P fn its d)))"
proof -
  from assms obtain d' where wt: "with_total its d = Inr d'"
    using with_total_error(2) [of its d] by (auto simp: reaches_pool_def)
  from assms obtain dflt where dm: "default_max_workers e = Inr dflt"
    by (auto simp: reaches_pool_def split: sum.splits)
  from assms obtain c where c: "lookup_default d ''tqdm_class'' (PClass tqdm_auto) = PClass c"
    by (auto simp: reaches_pool_def is_class_def split: pyval.splits)
  have "lookup_default d' ''tqdm_class'' (PClass tqdm_auto) = PClass c"
    using with_total_lookup [OF wt] c by simp
  then show ?thesis
    using wt dm by (auto simp: run_def share_lock_def run_pool_def split: option.splits)
qed

lemma reaches_pool_copied: "reaches_pool e its (copied n kw) = reaches_pool e its kw"
  by (simp add: reaches_pool_def total_error_copied lookup_default_copied)


lemma run_no_warning: "filter is_warning (snd (run e P fn its d)) = []"
proof (cases "with_total its d")
  case (Inl x)
  then show ?thesis by (simp add: run_def)
next
  case (Inr d')
  then show ?thesis
    by (auto simp: run_def share_lock_def run_pool_def split: sum.splits prod.splits option.splits pyval.splits)
qed

lemma events_PoolInit:
  assumes "PoolInit P pk \<in> set (events_of (thread_map e fn its kw s)) \<union> set (events_of (process_map e fn its kw s))"
  shows "\<exists>P'. PoolInit P pk \<in> set (snd (run e P' fn its (copied (length s + 2) kw)))"
proof -
  have "PoolInit P pk \<notin> set (chunksize_warning e its s' a)" for s' a
    by (simp add: chunksize_warning_def)
  with assms show ?thesis
    by (auto simp: thread_map_run process_map_run)
qed

lemma longest_iterable_len_Max:
  "its \<noteq> [] \<Longrightarrow> longest_iterable_len e its = Max (length_hint e ` set its)"
proof -
  assume "its \<noteq> []"
  have "fold max ns (0::nat) = Max (set (0 # ns))" for ns
    using Max.set_eq_fold [of 0 ns] by simp
  then have "longest_iterable_len e its = Max (insert 0 (length_hint e ` set its))"
    by (simp add: longest_iterable_len_def)
  also have "\<dots> = Max (length_hint e ` set its)"
    using \<open>its \<noteq> []\<close> by (subst Max_insert) auto
  finally show ?thesis .
qed

lemma chunksize_warning_eq:
  "chunksize_warning e its (s @ [ODict kw]) (length s) =
     (if map_of kw ''chunksize'' = None \<and> (\<exists>it\<in>set its. 1000 \<le> length_hint e it)
      then [Warn (Max (length_hint e ` set its))] else [])"
proof (cases "its = []")
  case True
  then show ?thesis by (simp add: chunksize_warning_def)
next
  case False
  have "1000 \<le> Max (length_hint e ` set its) \<longleftrightarrow> (\<exists>it\<in>set its. 1000 \<le> length_hint e it)"
    using False by (subst Max_ge_iff) auto
  then show ?thesis
    using False
    by (simp add: chunksize_warning_def longest_iterable_len_Max dict_contains_def dict_items_def)
qed

lemma executor_map_events:
  "events_of (executor_map e P fn its kw s) = snd (run e P fn its (copied (Suc (length s)) kw))"
  "outcome_of (executor_map e P fn its kw s) = final_outcome e fn its kw"
  using executor_map_run [of e P fn its kw s]
  by (simp_all add: events_of_def outcome_of_def prod_eq_iff run_outcome final_outcome_copied)

lemma filter_is_warning_chunksize_warning:
  "filter is_warning (chunksize_warning e its s a) = chunksize_warning e its s a"
  "filter (\<lambda>ev. \<not> is_warning ev) (chunksize_warning e its s a) = []"
  by (simp_all add: chunksize_warning_def)

lemma run_not_warning:
  "filter (\<lambda>ev. \<not> is_warning ev) (snd (run e P fn its d)) = snd (run e P fn its d)"
proof -
  have "\<forall>ev\<in>set (snd (run e P fn its d)). \<not> is_warning ev"
    using run_no_warning [of e P fn its d] by (simp add: filter_empty_conv)
  then show ?thesis by simp
qed

lemma length_hint_thousand: "length_hint e thousand = 1000"
  by (simp add: thousand_def)

lemma run_TqdmInit:
  assumes "TqdmInit c dk \<in> set (snd (run e P fn its d))" and "map_of d ''total'' = None"
  shows "\<exists>xs rest. its = Sized xs # rest \<and> map_of dk ''total'' = Some (PInt (int (length xs)))"
proof (cases "with_total its d")
  case (Inl x)
  with assms show ?thesis by (simp add: run_def)
next
  case (Inr d')
  with assms(2) obtain xs rest where its: "its = Sized xs # rest"
    and d': "d' = AList.update ''total'' (PInt (int (length xs))) d"
    by (cases its; cases "hd its") (auto simp: with_total_def)
  have dk: "map_of (display_kwargs d') ''total'' = Some (PInt (int (length xs)))"
    by (simp add: display_kwargs_def d' update_conv')
  have "dk = display_kwargs d'"
    using assms(1) Inr
    by (auto simp: run_def share_lock_def run_pool_def
          split: sum.splits prod.splits option.splits pyval.splits if_splits)
  with its dk show ?thesis by blast
qed

lemma run_reaches_TqdmInit:
  assumes "reaches_pool e its d" and "zip_star its \<noteq> None"
  shows "\<exists>c dk. TqdmInit c dk \<in> set (snd (run e P fn its d))"
proof -
  from assms(1) obtain d' where wt: "with_total its d = Inr d'"
    using with_total_error(2) [of its d] by (auto simp: reaches_pool_def)
  from assms(1) obtain dflt where dm: "default_max_workers e = Inr dflt"
    by (auto simp: reaches_pool_def split: sum.splits)
  from assms(1) obtain c where c: "lookup_default d ''tqdm_class'' (PClass tqdm_auto) = PClass c"
    by (auto simp: reaches_pool_def is_class_def split: pyval.splits)
  have "lookup_default d' ''tqdm_class'' (PClass tqdm_auto) = PClass c"
    using with_total_lookup [OF wt] c by simp
  then show ?thesis
    using wt dm assms(2)
    by (auto simp: run_def share_lock_def run_pool_def pool_map_def split: option.splits)
qed



text \<open>
  C8. The pool supports per-worker initialization when \<open>sys.version_info[:2] >= (3, 7)\<close>,
  which is the gate of line 39. Then every pool that is constructed, of either kind, gets
  \<open>initializer = tqdm_class.set_lock\<close> and \<open>initargs = (tqdm_class.get_lock(),)\<close>; otherwise
  it gets neither. A pool is constructed whenever the call gets that far.
\<close>

theorem lock_shared_when_pool_has_initializer:
  "(\<forall>P pk. PoolInit P pk \<in> set (events_of (thread_map e fn its kw s))
                   \<union> set (events_of (process_map e fn its kw s))
       \<longrightarrow> (if version_ge_3_7 e
            then (\<exists>c. lookup_default kw ''tqdm_class'' (PClass tqdm_auto) = PClass c
                    \<and> map_of pk ''initializer'' = Some (PSetLock c)
                    \<and> map_of pk ''initargs'' = Some (PTuple [PLock c]))
            else map_of pk ''initializer'' = None \<and> map_of pk ''initargs'' = None))
   \<and> (reaches_pool e its kw
        \<longrightarrow> (\<exists>pk. PoolInit ThreadPoolExecutor pk \<in> set (events_of (thread_map e fn its kw s)))
          \<and> (\<exists>pk. PoolInit ProcessPoolExecutor pk \<in> set (events_of (process_map e fn its kw s))))"
proof -
  have a: "(if version_ge_3_7 e
            then (\<exists>c. lookup_default kw ''tqdm_class'' (PClass tqdm_auto) = PClass c
                    \<and> map_of pk ''initializer'' = Some (PSetLock c)
                    \<and> map_of pk ''initargs'' = Some (PTuple [PLock c]))
            else map_of pk ''initializer'' = None \<and> map_of pk ''initargs'' = None)"
    if "PoolInit P pk \<in> set (events_of (thread_map e fn its kw s))
                   \<union> set (events_of (process_map e fn its kw s))" for P pk
  proof -
    from events_PoolInit [OF that] obtain P' where
      "PoolInit P pk \<in> set (snd (run e P' fn its (copied (length s + 2) kw)))" by blast
    from run_PoolInit [OF this] show ?thesis
      by (auto simp: lookup_default_copied split: if_splits)
  qed
  have b: "(\<exists>pk. PoolInit ThreadPoolExecutor pk \<in> set (events_of (thread_map e fn its kw s)))
              \<and> (\<exists>pk. PoolInit ProcessPoolExecutor pk \<in> set (events_of (process_map e fn its kw s)))"
    if "reaches_pool e its kw"
    using run_reaches [of e its "copied (length s + 2) kw"] that
    by (auto simp: reaches_pool_copied thread_map_run process_map_run)
  show ?thesis using a b by blast
qed

theorem lock_shared_when_pool_has_initializer_witness:
  "PoolInit ThreadPoolExecutor
      [(''max_workers'', PInt 2), (''initializer'', PSetLock tqdm_auto), (''initargs'', PTuple [PLock tqdm_auto])]
     \<in> set (events_of (thread_map py38 add_all [Sized [1, 2, 3]] [(''max_workers'', PInt 2)] []))
   \<and> PoolInit ProcessPoolExecutor [(''max_workers'', PInt 2)]
     \<in> set (events_of (process_map py27_fallback add_all [Sized [1, 2, 3]] [(''max_workers'', PInt 2)] []))
   \<and> version_ge_3_7 py38 \<and> \<not> version_ge_3_7 py27_fallback
   \<and> lookup_default [(''max_workers'', PInt 2)] ''tqdm_class'' (PClass tqdm_auto) = PClass tqdm_auto"
proof -
  have v1: "PoolInit ThreadPoolExecutor
      [(''max_workers'', PInt 2), (''initializer'', PSetLock tqdm_auto), (''initargs'', PTuple [PLock tqdm_auto])]
     \<in> set (events_of (thread_map py38 add_all [Sized [1, 2, 3]] [(''max_workers'', PInt 2)] []))"
    by code_simp
  have v2: "version_ge_3_7 py38" "\<not> version_ge_3_7 py27_fallback"
    by (simp_all add: version_ge_3_7_def py38_def py27_fallback_def)
  have r: "reaches_pool py27_fallback [Sized [1, 2, 3::int]] [(''max_workers'', PInt 2)]"
    by (simp add: reaches_pool_def total_error_def default_max_workers_def py27_fallback_def
          lookup_default_def is_class_def)
  from lock_shared_when_pool_has_initializer
         [of py27_fallback add_all "[Sized [1, 2, 3]]" "[(''max_workers'', PInt 2)]" "[]"] r
  obtain pk where pk: "PoolInit ProcessPoolExecutor pk
     \<in> set (events_of (process_map py27_fallback add_all [Sized [1, 2, 3]] [(''max_workers'', PInt 2)] []))"
    by blast
  have "PoolInit ProcessPoolExecutor [(''max_workers'', PInt 2)]
     \<in> set (events_of (process_map py27_fallback add_all [Sized [1, 2, 3]] [(''max_workers'', PInt 2)] []))"
    by code_simp
  moreover have "lookup_default [(''max_workers'', PInt 2)] ''tqdm_class'' (PClass tqdm_auto) = PClass tqdm_auto"
    by (simp add: lookup_default_def)
  ultimately show ?thesis using v1 v2 pk by simp
qed



text \<open>
  C2. The warnings of a \<open>process_map\<close> call are exactly one \<open>RuntimeWarning\<close> when
  \<open>chunksize\<close> is not among the keyword arguments and some input has a length hint of at
  least 1000, and none otherwise; \<open>thread_map\<close> never warns. The warning changes nothing:
  what the call yields and its other events are those of \<open>_executor_map\<close> on a process
  pool, and what it yields is what the call with \<open>chunksize=1\<close> given (which does not warn)
  yields.
\<close>

theorem chunksize_warning_exactly_when:
  "filter is_warning (events_of (process_map e fn its kw s)) =
     (if map_of kw ''chunksize'' = None \<and> (\<exists>it\<in>set its. 1000 \<le> length_hint e it)
      then [Warn (Max (length_hint e ` set its))] else [])
   \<and> filter is_warning (events_of (thread_map e fn its kw s)) = []
   \<and> outcome_of (process_map e fn its kw s)
       = outcome_of (executor_map e ProcessPoolExecutor fn its kw (s @ [ODict kw]))
   \<and> filter (\<lambda>ev. \<not> is_warning ev) (events_of (process_map e fn its kw s))
       = events_of (executor_map e ProcessPoolExecutor fn its kw (s @ [ODict kw]))
   \<and> outcome_of (process_map e fn its kw s)
       = outcome_of (process_map e fn its ((''chunksize'', PInt 1) # kw) s)"
proof -
  have "final_outcome e fn its kw = final_outcome e fn its ((''chunksize'', PInt 1) # kw)"
    by (simp add: final_outcome_def total_error_def lookup_default_def)
  then show ?thesis
    by (simp add: process_map_run thread_map_run run_no_warning run_not_warning
          filter_is_warning_chunksize_warning chunksize_warning_eq executor_map_events
          run_outcome final_outcome_copied)
qed

theorem chunksize_warning_exactly_when_witness:
  "filter is_warning (events_of (process_map py38 add_all [thousand] [] [])) = [Warn 1000]
   \<and> filter is_warning (events_of (process_map py38 add_all [thousand] [(''chunksize'', PInt 50)] [])) = []
   \<and> filter is_warning (events_of (process_map py38 add_all [Sized [1, 2, 3]] [] [])) = []
   \<and> filter is_warning (events_of (thread_map py38 add_all [thousand] [] [])) = []"
  using chunksize_warning_exactly_when [of py38 add_all "[thousand]" "[]" "[]"]
        chunksize_warning_exactly_when [of py38 add_all "[thousand]" "[(''chunksize'', PInt 50)]" "[]"]
        chunksize_warning_exactly_when [of py38 add_all "[Sized [1, 2, 3]]" "[]" "[]"]
  by (simp add: length_hint_thousand)

text \<open>
  C4, as stated, fails: with a first input sequence that has no length and no \<open>total\<close>,
  the call raises \<open>TypeError\<close>, but not out of the progress display, which is never
  constructed.
\<close>

theorem length_error_not_from_display:
  "\<not> propagated_from_display (thread_map py38 add_all [Iterator 0 [1, 2, 3]] [] [])"
  by code_simp


text \<open>
  C4, amended. In a call without \<open>total\<close>, every progress display that is constructed is
  configured with \<open>total\<close> equal to the length of the first input sequence, and one is
  constructed whenever the call gets as far as the pool and the inputs can be collected.
  When the first input sequence has no length, the call fails with \<open>TypeError\<close>, raised by
  \<open>len(iterables[0])\<close> of line 34 before \<open>cpu_count\<close>, the pool or the display are touched.
\<close>

theorem default_total_is_len_of_first:
  assumes "map_of kw ''total'' = None"
  shows "(\<forall>c dk. TqdmInit c dk \<in> set (events_of (thread_map e fn its kw s))
                     \<union> set (events_of (process_map e fn its kw s))
            \<longrightarrow> (\<exists>xs rest. its = Sized xs # rest
                   \<and> map_of dk ''total'' = Some (PInt (int (length xs)))))
       \<and> (reaches_pool e its kw \<and> zip_star its \<noteq> None
            \<longrightarrow> (\<exists>c dk. TqdmInit c dk \<in> set (events_of (thread_map e fn its kw s)))
              \<and> (\<exists>c dk. TqdmInit c dk \<in> set (events_of (process_map e fn its kw s))))
       \<and> (\<forall>it rest x. its = it # rest \<and> len it = Inl x
            \<longrightarrow> outcome_of (thread_map e fn its kw s) = Raises TypeError
              \<and> events_of (thread_map e fn its kw s) = []
              \<and> outcome_of (process_map e fn its kw s) = Raises TypeError
              \<and> filter (\<lambda>ev. \<not> is_warning ev) (events_of (process_map e fn its kw s)) = [])"
proof -
  have t0: "map_of (copied (length s + 2) kw) ''total'' = None"
    using assms by (simp add: map_of_copied)
  have a: "\<exists>xs rest. its = Sized xs # rest \<and> map_of dk ''total'' = Some (PInt (int (length xs)))"
    if "TqdmInit c dk \<in> set (events_of (thread_map e fn its kw s))
                     \<union> set (events_of (process_map e fn its kw s))" for c dk
  proof -
    have "TqdmInit c dk \<notin> set (chunksize_warning e its s' a)" for s' a
      by (simp add: chunksize_warning_def)
    with that obtain P where "TqdmInit c dk \<in> set (snd (run e P fn its (copied (length s + 2) kw)))"
      by (auto simp: thread_map_run process_map_run)
    from run_TqdmInit [OF this t0] show ?thesis .
  qed
  have b: "(\<exists>c dk. TqdmInit c dk \<in> set (events_of (thread_map e fn its kw s)))
              \<and> (\<exists>c dk. TqdmInit c dk \<in> set (events_of (process_map e fn its kw s)))"
    if "reaches_pool e its kw" and "zip_star its \<noteq> None"
  proof -
    have "\<exists>c dk. TqdmInit c dk \<in> set (snd (run e P fn its (copied (length s + 2) kw)))" for P
      using that by (intro run_reaches_TqdmInit) (simp_all add: reaches_pool_copied)
    then show ?thesis by (simp add: thread_map_run process_map_run) blast
  qed
  have c: "outcome_of (thread_map e fn its kw s) = Raises TypeError
              \<and> events_of (thread_map e fn its kw s) = []
              \<and> outcome_of (process_map e fn its kw s) = Raises TypeError
              \<and> filter (\<lambda>ev. \<not> is_warning ev) (events_of (process_map e fn its kw s)) = []"
    if "its = it # rest" and "len it = Inl x" for it rest x
  proof -
    have x: "x = TypeError" using that(2) by (cases it) auto
    have "with_total its (copied (length s + 2) kw) = Inl TypeError"
      using that t0 x by (simp add: with_total_def)
    then have "run e P fn its (copied (length s + 2) kw) = (Raises TypeError, [])" for P
      by (simp add: run_def)
    then show ?thesis
      by (simp add: thread_map_run process_map_run filter_is_warning_chunksize_warning)
  qed
  show ?thesis using a b c by blast
qed

theorem default_total_is_len_of_first_witness:
  "TqdmInit tqdm_auto [(''total'', PInt 3)]
     \<in> set (events_of (thread_map py38 add_all [Sized [1, 2, 3]] [] []))
   \<and> map_of [(''total'', PInt 3)] ''total'' = Some (PInt (int (length [1, 2, 3::int])))
   \<and> outcome_of (thread_map py38 add_all [Iterator 0 [1, 2, 3]] [] []) = Raises TypeError
   \<and> events_of (thread_map py38 add_all [Iterator 0 [1, 2, 3]] [] []) = []"
proof -
  have h: "map_of ([] :: (string \<times> pyval) list) ''total'' = None" by simp
  have v: "TqdmInit tqdm_auto [(''total'', PInt 3)]
     \<in> set (events_of (thread_map py38 add_all [Sized [1, 2, 3]] [] []))"
    by code_simp
  have l: "len (Iterator 0 [1, 2, 3::int]) = Inl TypeError" by simp
  from default_total_is_len_of_first [OF h, of py38 add_all "[Iterator 0 [1, 2, 3]]" "[]"] l
  have "outcome_of (thread_map py38 add_all [Iterator 0 [1, 2, 3]] [] []) = Raises TypeError
      \<and> events_of (thread_map py38 add_all [Iterator 0 [1, 2, 3]] [] []) = []"
    by blast
  with v show ?thesis by simp
qed

lemma relocate_refs: "r \<in> set (val_refs (relocate n v)) \<Longrightarrow> n \<le> r"
  by (induction n v arbitrary: r rule: relocate.induct) auto

lemma relocate_obj_refs: "r \<in> set (obj_refs (relocate_obj n obj)) \<Longrightarrow> n \<le> r"
  by (cases obj) (auto dest: relocate_refs)

lemma separate_deepcopy: "separate (length s) (s @ map (relocate_obj (length s)) s)"
  by (auto simp: separate_def nth_append dest: relocate_obj_refs)

lemma separate_update:
  assumes "separate n s" and "\<forall>r\<in>set (obj_refs obj). n \<le> r"
  shows "separate n (s[a := obj])"
  unfolding separate_def
proof (intro allI impI ballI)
  fix b r
  assume b: "n \<le> b \<and> b < length (s[a := obj])" and r: "r \<in> set (obj_refs (s[a := obj] ! b))"
  show "n \<le> r"
  proof (cases "b = a")
    case True
    with b r assms(2) show ?thesis by simp
  next
    case False
    with b r assms(1) show ?thesis by (simp add: separate_def)
  qed
qed

lemma take_update: "n \<le> a \<Longrightarrow> take n (s[a := obj]) = take n s"
  by simp

lemma items_refs:
  assumes "separate n s" and "n \<le> a" and "(k, v) \<in> set (dict_items s a)" and "r \<in> set (val_refs v)"
  shows "n \<le> r"
proof (cases "a < length s")
  case False
  with assms(3) show ?thesis by (simp add: dict_items_def)
next
  case True
  show ?thesis
  proof (cases "s ! a")
    case (OList vs)
    with assms(3) True show ?thesis by (simp add: dict_items_def)
  next
    case (ODict d)
    with assms(3) True have "(k, v) \<in> set d" by (simp add: dict_items_def)
    with assms(4) have "r \<in> set (obj_refs (s ! a))" by (auto simp: ODict)
    with assms(1,2) True show ?thesis by (auto simp: separate_def)
  qed
qed

lemma set_update_subset: "set (AList.update k v d) \<subseteq> insert (k, v) (set d)"
  by (induction d) auto

lemma set_delete_subset: "set (AList.delete k d) \<subseteq> set d"
  by (auto simp: AList.delete_eq)

lemma kept_refl: "separate n s \<Longrightarrow> kept n s s"
  by (simp add: kept_def)

lemma kept_trans: "kept n s s' \<Longrightarrow> kept n s' s'' \<Longrightarrow> kept n s s''"
  by (simp add: kept_def)

lemma kept_setitem:
  assumes "separate n s" and "n \<le> a" and "val_refs v = []"
  shows "kept n s (dict_setitem s a k v)"
proof -
  have "\<forall>r\<in>set (obj_refs (ODict (AList.update k v (dict_items s a)))). n \<le> r"
    using set_update_subset [of k v "dict_items s a"] items_refs [OF assms(1,2)] assms(3)
    by fastforce
  then show ?thesis
    using assms(1,2) by (simp add: kept_def dict_setitem_def separate_update)
qed

lemma kept_pop:
  assumes "separate n s" and "n \<le> a"
  shows "kept n s (snd (dict_pop s a k dflt))"
proof -
  have "\<forall>r\<in>set (obj_refs (ODict (AList.delete k (dict_items s a)))). n \<le> r"
    using set_delete_subset [of k "dict_items s a"] items_refs [OF assms(1,2)]
    by fastforce
  then show ?thesis
    using assms by (auto simp: kept_def dict_pop_def separate_update split: option.splits)
qed

lemma kept_resolve_total:
  assumes "separate n s" and "n \<le> a" and "resolve_total its a s = Inr s'"
  shows "kept n s s'"
  using assms kept_setitem [OF assms(1,2), of "PInt i" "''total''" for i]
  by (auto simp: resolve_total_def kept_refl split: if_splits list.splits sum.splits)

lemma executor_map_store:
  "kept (Suc (length s0))
     ((s0 @ [ODict kw]) @ map (relocate_obj (Suc (length s0))) (s0 @ [ODict kw]))
     (store_of (executor_map e P fn its kw s0))"
proof -
  let ?n = "Suc (length s0)"
  let ?a = "length s0 + ?n"
  let ?s1 = "s0 @ [ODict kw]"
  let ?s2 = "?s1 @ map (relocate_obj ?n) ?s1"
  have sep: "separate ?n ?s2" using separate_deepcopy [of ?s1] by simp
  have a: "?n \<le> ?a" by simp
  show ?thesis
  proof (cases "resolve_total its ?a ?s2")
    case (Inl x)
    then show ?thesis
      using kept_refl [OF sep]
      by (simp add: executor_map_def new_dict_def deepcopy_def store_of_def)
  next
    case (Inr s3)
    have k3: "kept ?n ?s2 s3" by (rule kept_resolve_total [OF sep a Inr])
    define s4 where "s4 = snd (dict_pop s3 ?a ''tqdm_class'' (PClass tqdm_auto))"
    have k4: "kept ?n ?s2 s4"
      unfolding s4_def using k3 kept_pop [of ?n s3 ?a] kept_trans by (auto simp: kept_def)
    have k6: "kept ?n ?s2 (snd (dict_pop (snd (dict_pop s4 ?a ''max_workers'' d1)) ?a ''chunksize'' d2))"
      for d1 d2
    proof -
      have "kept ?n s4 (snd (dict_pop s4 ?a ''max_workers'' d1))"
        using k4 by (intro kept_pop) (auto simp: kept_def)
      then have k5: "kept ?n ?s2 (snd (dict_pop s4 ?a ''max_workers'' d1))"
        using k4 kept_trans by blast
      then have "kept ?n (snd (dict_pop s4 ?a ''max_workers'' d1))
                   (snd (dict_pop (snd (dict_pop s4 ?a ''max_workers'' d1)) ?a ''chunksize'' d2))"
        by (intro kept_pop) (auto simp: kept_def)
      with k5 show ?thesis using kept_trans by blast
    qed
    show ?thesis
      using Inr k4 k6
      by (simp add: executor_map_def new_dict_def deepcopy_def store_of_def split_beta Let_def
            s4_def split: sum.splits)
  qed
qed

text \<open>
  C9. \<open>_executor_map\<close> leaves its \<open>tqdm_kwargs\<close> dictionary and every object that existed
  before the call as they were: it pops and inserts in a deep copy, and no object made
  by the call refers to an object that existed before it. The objects of the caller are
  likewise untouched by \<open>thread_map\<close> and \<open>process_map\<close>.
\<close>

theorem caller_kwargs_not_mutated:
  "take (Suc (length s)) (store_of (executor_map e P fn its kw s)) = s @ [ODict kw]
   \<and> length (store_of (executor_map e P fn its kw s)) = 2 * Suc (length s)
   \<and> (\<forall>a. Suc (length s) \<le> a \<and> a < 2 * Suc (length s)
         \<longrightarrow> (\<forall>r\<in>set (obj_refs (store_of (executor_map e P fn its kw s) ! a)). Suc (length s) \<le> r))
   \<and> take (Suc (length s)) (store_of (thread_map e fn its kw s)) = s @ [ODict kw]
   \<and> take (Suc (length s)) (store_of (process_map e fn its kw s)) = s @ [ODict kw]"
proof -
  have k: "take (Suc (length s0)) (store_of (executor_map e P fn its kw0 s0)) = s0 @ [ODict kw0]
        \<and> length (store_of (executor_map e P fn its kw0 s0)) = 2 * Suc (length s0)
        \<and> separate (Suc (length s0)) (store_of (executor_map e P fn its kw0 s0))" for P kw0 s0
    using executor_map_store [where ?s0.0 = s0 and kw = kw0 and e = e and P = P and fn = fn and its = its]
    by (simp add: kept_def)
  have t: "store_of (thread_map e fn its kw s)
             = store_of (executor_map e ThreadPoolExecutor fn its kw (s @ [ODict kw]))"
    by (simp add: thread_map_def new_dict_def dict_items_def store_of_def)
  have p: "store_of (process_map e fn its kw s)
             = store_of (executor_map e ProcessPoolExecutor fn its kw (s @ [ODict kw]))"
    by (simp add: process_map_def new_dict_def dict_items_def store_of_def split_beta)
  have pre: "take (Suc (length s)) st = s @ [ODict kw]"
    if "take (Suc (length (s @ [ODict kw]))) st = (s @ [ODict kw]) @ [ODict kw]" for st
  proof -
    have "take (Suc (length s)) (take (Suc (length (s @ [ODict kw]))) st) = take (Suc (length s)) st"
      by (simp add: min_def)
    with that show ?thesis by simp
  qed
  show ?thesis
    using k [where P = P and ?kw0.0 = kw and ?s0.0 = s]
      k [where P = ThreadPoolExecutor and ?kw0.0 = kw and ?s0.0 = "s @ [ODict kw]"]
      k [where P = ProcessPoolExecutor and ?kw0.0 = kw and ?s0.0 = "s @ [ODict kw]"] pre
    by (simp add: t p separate_def)
qed

theorem caller_kwargs_not_mutated_witness:
  "take 2 (store_of (executor_map py38 ThreadPoolExecutor add_all [Sized [1, 2, 3]]
             [(''postfix'', PRef 0), (''max_workers'', PInt 2)] caller_list))
     = [OList [PInt 1], ODict [(''postfix'', PRef 0), (''max_workers'', PInt 2)]]
   \<and> store_of (executor_map py38 ThreadPoolExecutor add_all [Sized [1, 2, 3]]
             [(''postfix'', PRef 0), (''max_workers'', PInt 2)] caller_list) ! 3
     = ODict [(''postfix'', PRef 2), (''total'', PInt 3)]"
proof -
  have v: "store_of (executor_map py38 ThreadPoolExecutor add_all [Sized [1, 2, 3]]
             [(''postfix'', PRef 0), (''max_workers'', PInt 2)] caller_list) ! 3
     = ODict [(''postfix'', PRef 2), (''total'', PInt 3)]"
    by code_simp
  have l: "Suc (length caller_list) = 2" by (simp add: caller_list_def)
  from caller_kwargs_not_mutated [of caller_list py38 ThreadPoolExecutor add_all "[Sized [1, 2, 3]]"
         "[(''postfix'', PRef 0), (''max_workers'', PInt 2)]"] v
  show ?thesis unfolding l by (simp add: caller_list_def)
qed

end
